theory Spec2Isabelle
  imports Main
begin

section \<open>Data model of treeprint\<close>

text \<open>
  Payloads of type \<^verbatim>\<open>any\<close> are modelled by a closed set of kinds: the nil interface,
  integers, strings and booleans. \<^verbatim>\<open>reflect.DeepEqual\<close> on these kinds is HOL equality.
\<close>

datatype any = VNil | VInt int | VStr string | VBool bool

text \<open>
  A \<^verbatim>\<open>*Node\<close> is an index into the store, which is the list of all nodes allocated so
  far; allocation appends to the store. An index outside the store stands for a pointer
  that cannot be dereferenced (nil): every field access through it panics.
  The field \<^verbatim>\<open>Root\<close> is \<open>None\<close> for the nil pointer.
\<close>

type_synonym ptr = nat

record Node =
  Root :: "ptr option"
  Meta :: any
  Value :: any
  Nodes :: "ptr list"

type_synonym heap = "Node list"

datatype error = NilDeref | IndexOutOfRange

type_synonym 'a res = "error + 'a"

text \<open>Go strings are byte sequences; the glyphs are given by their UTF-8 bytes.\<close>

definition EdgeTypeLink :: string where
  "EdgeTypeLink = [CHR 0xE2, CHR 0x94, CHR 0x82]"

definition EdgeTypeMid :: string where
  "EdgeTypeMid = [CHR 0xE2, CHR 0x94, CHR 0x9C, CHR 0xE2, CHR 0x94, CHR 0x80]"

definition EdgeTypeEnd :: string where
  "EdgeTypeEnd = [CHR 0xE2, CHR 0x94, CHR 0x94, CHR 0xE2, CHR 0x94, CHR 0x80]"

text \<open>The package-level variable \<^verbatim>\<open>IndentSize\<close> at its declared value.\<close>

definition IndentSize :: int where
  "IndentSize = 3"

subsection \<open>Library functions used by the code\<close>

text \<open>\<^verbatim>\<open>strings.Repeat\<close> for a count that is not negative.\<close>

definition Repeat :: "string \<Rightarrow> int \<Rightarrow> string" where
  "Repeat s n = concat (replicate (nat n) s)"

text \<open>\<^verbatim>\<open>strings.Split(s, "\n")\<close>: one more piece than there are line feeds.\<close>

fun Split :: "string \<Rightarrow> string list" where
  "Split [] = [Nil]"
| "Split (c # cs) =
     (if c = CHR 0x0A then [] # Split cs
      else (case Split cs of l # ls \<Rightarrow> (c # l) # ls | [] \<Rightarrow> [c # Nil]))"

text \<open>\<^verbatim>\<open>strings.Join(lines, "\n")\<close>.\<close>

fun Join :: "string list \<Rightarrow> string" where
  "Join [] = []"
| "Join [l] = l"
| "Join (l # ls) = l @ [CHR 0x0A] @ Join ls"

text \<open>The verb \<^verbatim>\<open>%v\<close> of package fmt on the payload kinds.\<close>

definition digit :: "nat \<Rightarrow> char" where
  "digit d = char_of (48 + d)"

fun decimal :: "nat \<Rightarrow> string" where
  "decimal n = (if n < 10 then [digit n] else decimal (n div 10) @ [digit (n mod 10)])"

declare decimal.simps [simp del]

fun fmtv :: "any \<Rightarrow> string" where
  "fmtv VNil = ''<nil>''"
| "fmtv (VInt i) = (if i < 0 then CHR ''-'' # decimal (nat (- i)) else decimal (nat i))"
| "fmtv (VStr s) = s"
| "fmtv (VBool b) = (if b then ''true'' else ''false'')"

section \<open>Tree construction\<close>

definition New :: "heap \<Rightarrow> ptr \<times> heap" where
  "New h = (length h, h @ [\<lparr>Root = None, Meta = VNil, Value = VStr ''.'', Nodes = []\<rparr>])"

definition NewWithRoot :: "heap \<Rightarrow> any \<Rightarrow> ptr \<times> heap" where
  "NewWithRoot h root = (length h, h @ [\<lparr>Root = None, Meta = VNil, Value = root, Nodes = []\<rparr>])"

text \<open>
  The four add-operations allocate the child, append it to the receiver's children and
  return the receiver (\<^verbatim>\<open>AddNode\<close>, \<^verbatim>\<open>AddMetaNode\<close>) or the child (\<^verbatim>\<open>AddBranch\<close>,
  \<^verbatim>\<open>AddMetaBranch\<close>).
\<close>

definition append_child :: "heap \<Rightarrow> ptr \<Rightarrow> any \<Rightarrow> any \<Rightarrow> heap" where
  "append_child h n meta a =
     (h @ [\<lparr>Root = Some n, Meta = meta, Value = a, Nodes = []\<rparr>])
       [n := (h ! n)\<lparr>Nodes := Nodes (h ! n) @ [length h]\<rparr>]"

definition AddNode :: "heap \<Rightarrow> ptr \<Rightarrow> any \<Rightarrow> (ptr \<times> heap) res" where
  "AddNode h n a =
     (if length h \<le> n then Inl NilDeref else Inr (n, append_child h n VNil a))"

definition AddMetaNode :: "heap \<Rightarrow> ptr \<Rightarrow> any \<Rightarrow> any \<Rightarrow> (ptr \<times> heap) res" where
  "AddMetaNode h n meta a =
     (if length h \<le> n then Inl NilDeref else Inr (n, append_child h n meta a))"

definition AddBranch :: "heap \<Rightarrow> ptr \<Rightarrow> any \<Rightarrow> (ptr \<times> heap) res" where
  "AddBranch h n a =
     (if length h \<le> n then Inl NilDeref else Inr (length h, append_child h n VNil a))"

definition AddMetaBranch :: "heap \<Rightarrow> ptr \<Rightarrow> any \<Rightarrow> any \<Rightarrow> (ptr \<times> heap) res" where
  "AddMetaBranch h n meta a =
     (if length h \<le> n then Inl NilDeref else Inr (length h, append_child h n meta a))"

definition Branch :: "heap \<Rightarrow> ptr \<Rightarrow> (ptr \<times> heap) res" where
  "Branch h n =
     (if length h \<le> n then Inl NilDeref else Inr (n, h[n := (h ! n)\<lparr>Root := None\<rparr>]))"

definition FindLastNode :: "heap \<Rightarrow> ptr \<Rightarrow> ptr option res" where
  "FindLastNode h n =
     (if length h \<le> n then Inl NilDeref
      else let ns = Nodes (h ! n) in
           if length ns = 0 then Inr None else Inr (Some (ns ! (length ns - 1))))"

section \<open>Search and traversal\<close>

text \<open>
  The loop of \<^verbatim>\<open>FindByMeta\<close> over the children still to be examined. A store whose
  child links form a cycle makes the source recurse for ever; that is the value \<open>None\<close>.
\<close>

partial_function (option) FindByMeta_loop :: "heap \<Rightarrow> ptr list \<Rightarrow> any \<Rightarrow> ptr option res option" where
  "FindByMeta_loop h ns meta =
     (case ns of
        [] \<Rightarrow> Some (Inr None)
      | node # rest \<Rightarrow>
          if length h \<le> node then Some (Inl NilDeref)
          else if Meta (h ! node) = meta then Some (Inr (Some node))
          else Option.bind (FindByMeta_loop h (Nodes (h ! node)) meta)
                 (\<lambda>r. case r of
                         Inl e \<Rightarrow> Some (Inl e)
                       | Inr (Some v) \<Rightarrow> Some (Inr (Some v))
                       | Inr None \<Rightarrow> FindByMeta_loop h rest meta))"

declare FindByMeta_loop.simps [code]

definition FindByMeta :: "heap \<Rightarrow> ptr \<Rightarrow> any \<Rightarrow> ptr option res option" where
  "FindByMeta h n meta =
     (if length h \<le> n then Some (Inl NilDeref) else FindByMeta_loop h (Nodes (h ! n)) meta)"

text \<open>The loop of \<^verbatim>\<open>FindByValue\<close>; below a child the source calls \<^verbatim>\<open>FindByMeta\<close>.\<close>

fun FindByValue_loop :: "heap \<Rightarrow> ptr list \<Rightarrow> any \<Rightarrow> ptr option res option" where
  "FindByValue_loop h [] v = Some (Inr None)"
| "FindByValue_loop h (node # rest) v =
     (if length h \<le> node then Some (Inl NilDeref)
      else if Value (h ! node) = v then Some (Inr (Some node))
      else Option.bind (FindByMeta h node v)
             (\<lambda>r. case r of
                     Inl e \<Rightarrow> Some (Inl e)
                   | Inr (Some w) \<Rightarrow> Some (Inr (Some w))
                   | Inr None \<Rightarrow> FindByValue_loop h rest v))"

definition FindByValue :: "heap \<Rightarrow> ptr \<Rightarrow> any \<Rightarrow> ptr option res option" where
  "FindByValue h n v =
     (if length h \<le> n then Some (Inl NilDeref) else FindByValue_loop h (Nodes (h ! n)) v)"

text \<open>
  \<^verbatim>\<open>VisitAll\<close>: the visitor is a transformer of the caller's state \<open>'s\<close> that leaves the
  tree alone.
\<close>

partial_function (option) VisitAll_loop :: "heap \<Rightarrow> ptr list \<Rightarrow> (ptr \<Rightarrow> 's \<Rightarrow> 's) \<Rightarrow> 's \<Rightarrow> 's res option" where
  "VisitAll_loop h ns fn s =
     (case ns of
        [] \<Rightarrow> Some (Inr s)
      | node # rest \<Rightarrow>
          let s1 = fn node s in
          if length h \<le> node then Some (Inl NilDeref)
          else if length (Nodes (h ! node)) > 0 then
            Option.bind (VisitAll_loop h (Nodes (h ! node)) fn s1)
              (\<lambda>r. case r of Inl e \<Rightarrow> Some (Inl e) | Inr s2 \<Rightarrow> VisitAll_loop h rest fn s2)
          else VisitAll_loop h rest fn s1)"

declare VisitAll_loop.simps [code]

definition VisitAll :: "heap \<Rightarrow> ptr \<Rightarrow> (ptr \<Rightarrow> 's \<Rightarrow> 's) \<Rightarrow> 's \<Rightarrow> 's res option" where
  "VisitAll h n fn s =
     (if length h \<le> n then Some (Inl NilDeref) else VisitAll_loop h (Nodes (h ! n)) fn s)"

section \<open>Rendering\<close>

fun isEnded :: "int list \<Rightarrow> int \<Rightarrow> bool" where
  "isEnded [] level = False"
| "isEnded (l # ls) level = (if l = level then True else isEnded ls level)"

definition isLast :: "heap \<Rightarrow> ptr \<Rightarrow> bool res" where
  "isLast h n =
     (if length h \<le> n then Inl NilDeref
      else case Root (h ! n) of
             None \<Rightarrow> Inl NilDeref
           | Some r \<Rightarrow>
               (case FindLastNode h r of Inl e \<Rightarrow> Inl e | Inr l \<Rightarrow> Inr (l = Some n)))"

text \<open>
  The loop of \<^verbatim>\<open>padding\<close>: \<open>links\<close> has \<open>level + 1\<close> entries at the start, and the
  store into \<open>links[level]\<close> panics once \<open>level\<close> has gone below zero.
\<close>

function padding_loop :: "heap \<Rightarrow> string list \<Rightarrow> int \<Rightarrow> ptr \<Rightarrow> string res" where
  "padding_loop h links level node =
     (if length h \<le> node then Inl NilDeref
      else case Root (h ! node) of
             None \<Rightarrow> Inr (concat links)
           | Some r \<Rightarrow>
               (case isLast h node of
                  Inl e \<Rightarrow> Inl e
                | Inr b \<Rightarrow>
                    if level < 0 \<or> int (length links) \<le> level then Inl IndexOutOfRange
                    else padding_loop h
                           (links[nat level :=
                              (if b then Repeat '' '' (IndentSize + 1)
                               else EdgeTypeLink @ Repeat '' '' IndentSize)])
                           (level - 1) r))"
  by pat_completeness auto
termination
  by (relation "measure (\<lambda>(h, links, level, node). nat (level + 1))") auto

declare padding_loop.simps [simp del]

definition padding :: "heap \<Rightarrow> int \<Rightarrow> ptr \<Rightarrow> string res" where
  "padding h level node =
     (if level + 1 < 0 then Inl IndexOutOfRange
      else padding_loop h (replicate (nat (level + 1)) []) level node)"

definition renderValue :: "heap \<Rightarrow> int \<Rightarrow> ptr \<Rightarrow> any res" where
  "renderValue h level node =
     (if length h \<le> node then Inl NilDeref
      else let lines = Split (fmtv (Value (h ! node))) in
           if length lines < 2 then Inr (Value (h ! node))
           else case padding h level node of
                  Inl e \<Rightarrow> Inl e
                | Inr pad \<Rightarrow> Inr (VStr (Join (hd lines # map (\<lambda>l. pad @ l) (tl lines)))))"

text \<open>The first loop of \<^verbatim>\<open>printValues\<close>, writing to the sink \<open>wr\<close>.\<close>

function indent_loop :: "int list \<Rightarrow> int \<Rightarrow> int \<Rightarrow> string \<Rightarrow> string" where
  "indent_loop levelsEnded i level wr =
     (if i < level then
        indent_loop levelsEnded (i + 1) level
          (if isEnded levelsEnded i then wr @ Repeat '' '' (IndentSize + 1)
           else wr @ EdgeTypeLink @ Repeat '' '' IndentSize)
      else wr)"
  by pat_completeness auto
termination
  by (relation "measure (\<lambda>(levelsEnded, i, level, wr). nat (level - i))") auto

declare indent_loop.simps [simp del]

definition printValues :: "heap \<Rightarrow> string \<Rightarrow> int \<Rightarrow> int list \<Rightarrow> string \<Rightarrow> ptr \<Rightarrow> string res" where
  "printValues h wr level levelsEnded edge node =
     (let wr1 = indent_loop levelsEnded 0 level wr in
      case renderValue h level node of
        Inl e \<Rightarrow> Inl e
      | Inr val \<Rightarrow>
          let meta = Meta (h ! node) in
          if meta \<noteq> VNil then
            Inr (wr1 @ edge @ '' ['' @ fmtv meta @ '']  '' @ fmtv val @ [CHR 0x0A])
          else Inr (wr1 @ edge @ '' '' @ fmtv val @ [CHR 0x0A]))"

text \<open>
  The loop of \<^verbatim>\<open>printNodes\<close> over the siblings still to be printed: the one at the head
  has index \<open>len(nodes)-1\<close> exactly when none follows it.
\<close>

partial_function (option) printNodes :: "heap \<Rightarrow> string \<Rightarrow> int \<Rightarrow> int list \<Rightarrow> ptr list \<Rightarrow> string res option" where
  "printNodes h wr level levelsEnded nodes =
     (case nodes of
        [] \<Rightarrow> Some (Inr wr)
      | node # rest \<Rightarrow>
          let levelsEnded1 = (if rest = [] then levelsEnded @ [level] else levelsEnded);
              edge = (if rest = [] then EdgeTypeEnd else EdgeTypeMid)
          in case printValues h wr level levelsEnded1 edge node of
               Inl e \<Rightarrow> Some (Inl e)
             | Inr wr1 \<Rightarrow>
                 if length (Nodes (h ! node)) > 0 then
                   Option.bind (printNodes h wr1 (level + 1) levelsEnded1 (Nodes (h ! node)))
                     (\<lambda>r. case r of
                             Inl e \<Rightarrow> Some (Inl e)
                           | Inr wr2 \<Rightarrow> printNodes h wr2 level levelsEnded1 rest)
                 else printNodes h wr1 level levelsEnded1 rest)"

declare printNodes.simps [code]

definition Writer :: "heap \<Rightarrow> ptr \<Rightarrow> string \<Rightarrow> string res option" where
  "Writer h n w =
     (if length h \<le> n then Some (Inl NilDeref)
      else
        let level = 0; levelsEnded = [] in
        case (if Root (h ! n) = None then
                Inr (if Meta (h ! n) \<noteq> VNil
                     then w @ ''['' @ fmtv (Meta (h ! n)) @ '']  '' @ fmtv (Value (h ! n)) @ [CHR 0x0A]
                     else w @ fmtv (Value (h ! n)) @ [CHR 0x0A],
                     levelsEnded)
              else
                let edge = (if length (Nodes (h ! n)) = 0 then EdgeTypeEnd else EdgeTypeMid);
                    levelsEnded1 = (if length (Nodes (h ! n)) = 0 then levelsEnded @ [level]
                                    else levelsEnded)
                in case printValues h w 0 levelsEnded1 edge n of
                     Inl e \<Rightarrow> Inl e
                   | Inr w1 \<Rightarrow> Inr (w1, levelsEnded1)) of
          Inl e \<Rightarrow> Some (Inl e)
        | Inr (w1, levelsEnded1) \<Rightarrow>
            if length (Nodes (h ! n)) > 0 then printNodes h w1 level levelsEnded1 (Nodes (h ! n))
            else Some (Inr w1))"

definition Bytes :: "heap \<Rightarrow> ptr \<Rightarrow> string res option" where
  "Bytes h n = Writer h n []"

definition String :: "heap \<Rightarrow> ptr \<Rightarrow> string res option" where
  "String h n = Bytes h n"

section \<open>Calls of the Tree interface as steps on the store\<close>

text \<open>
  A call takes the store and returns its result together with the store it leaves. The
  render calls read the store only: none of \<^verbatim>\<open>Writer\<close>, \<^verbatim>\<open>printNodes\<close>, \<^verbatim>\<open>printValues\<close>,
  \<^verbatim>\<open>renderValue\<close>, \<^verbatim>\<open>padding\<close>, \<^verbatim>\<open>isLast\<close> and \<^verbatim>\<open>FindLastNode\<close> assigns to a field of a
  node, so the store they leave is the store they were given. \<^verbatim>\<open>Writer\<close> is called with
  a sink that holds \<open>w\<close> and returns what the sink holds afterwards.
\<close>

datatype call =
    New_call
  | NewWithRoot_call any
  | AddNode_call ptr any
  | AddMetaNode_call ptr any any
  | AddBranch_call ptr any
  | AddMetaBranch_call ptr any any
  | Branch_call ptr
  | String_call ptr
  | Bytes_call ptr
  | Writer_call ptr string

datatype ret = RTree ptr | RText string

definition with_tree :: "(ptr \<times> heap) res \<Rightarrow> (ret \<times> heap) res option" where
  "with_tree r = Some (case r of Inl e \<Rightarrow> Inl e | Inr (p, h') \<Rightarrow> Inr (RTree p, h'))"

definition with_text :: "heap \<Rightarrow> string res option \<Rightarrow> (ret \<times> heap) res option" where
  "with_text h r =
     (case r of
        None \<Rightarrow> None
      | Some (Inl e) \<Rightarrow> Some (Inl e)
      | Some (Inr out) \<Rightarrow> Some (Inr (RText out, h)))"

fun exec :: "call \<Rightarrow> heap \<Rightarrow> (ret \<times> heap) res option" where
  "exec New_call h = with_tree (Inr (New h))"
| "exec (NewWithRoot_call root) h = with_tree (Inr (NewWithRoot h root))"
| "exec (AddNode_call n a) h = with_tree (AddNode h n a)"
| "exec (AddMetaNode_call n meta a) h = with_tree (AddMetaNode h n meta a)"
| "exec (AddBranch_call n a) h = with_tree (AddBranch h n a)"
| "exec (AddMetaBranch_call n meta a) h = with_tree (AddMetaBranch h n meta a)"
| "exec (Branch_call n) h = with_tree (Branch h n)"
| "exec (String_call n) h = with_text h (String h n)"
| "exec (Bytes_call n) h = with_text h (Bytes h n)"
| "exec (Writer_call n w) h = with_text h (Writer h n w)"

fun is_add :: "call \<Rightarrow> bool" where
  "is_add New_call = True"
| "is_add (NewWithRoot_call root) = True"
| "is_add (AddNode_call n a) = True"
| "is_add (AddMetaNode_call n meta a) = True"
| "is_add (AddBranch_call n a) = True"
| "is_add (AddMetaBranch_call n meta a) = True"
| "is_add c = False"

text \<open>The stores that the factories and the add-operations build, starting from nothing.\<close>

inductive built :: "heap \<Rightarrow> bool" where
  built_empty: "built []"
| built_step: "built h \<Longrightarrow> is_add c \<Longrightarrow> exec c h = Some (Inr (r, h')) \<Longrightarrow> built h'"

section \<open>Trees in the store\<close>

text \<open>
  The part of the store below a list of nodes, as a forest of pointers. \<open>shapes h ts\<close>
  says that the forest \<open>ts\<close> is what the \<^verbatim>\<open>Nodes\<close> fields of \<open>h\<close> hold below the roots
  of \<open>ts\<close>. A forest is finite, so child links that have a shape have no cycle.
\<close>

datatype atree = AT ptr "atree list"

fun addr_of :: "atree \<Rightarrow> ptr" where
  "addr_of (AT a ks) = a"

fun shapes :: "heap \<Rightarrow> atree list \<Rightarrow> bool" where
  "shapes h [] = True"
| "shapes h (AT a ks # rest) =
     (a < length h \<and> Nodes (h ! a) = map addr_of ks \<and> shapes h ks \<and> shapes h rest)"

text \<open>
  The order of the specification: each child, then all that is below it, then the next
  child.
\<close>

fun preorder :: "atree list \<Rightarrow> ptr list" where
  "preorder [] = []"
| "preorder (AT a ks # rest) = a # preorder ks @ preorder rest"

subsection \<open>The rendering of the specification\<close>

text \<open>
  One segment of a line's indentation: blank where the ancestor at that depth was a
  last sibling, a vertical link otherwise.
\<close>

definition segment :: "bool \<Rightarrow> string" where
  "segment ended =
     (if ended then Repeat '' '' (IndentSize + 1) else EdgeTypeLink @ Repeat '' '' IndentSize)"

text \<open>The connector of a node's own line.\<close>

definition connector :: "bool \<Rightarrow> string" where
  "connector is_last = (if is_last then EdgeTypeEnd else EdgeTypeMid)"

text \<open>The bracketed metadata, present unless the field is nil.\<close>

definition meta_prefix :: "any \<Rightarrow> string" where
  "meta_prefix m = (if m = VNil then [] else ''['' @ fmtv m @ '']  '')"

definition value_text :: "heap \<Rightarrow> int \<Rightarrow> ptr \<Rightarrow> string" where
  "value_text h level a = (case renderValue h level a of Inl e \<Rightarrow> [] | Inr val \<Rightarrow> fmtv val)"

text \<open>No node of the forest, printed from \<open>level\<close> on, makes \<^verbatim>\<open>renderValue\<close> panic.\<close>

fun renders_ok :: "heap \<Rightarrow> int \<Rightarrow> atree list \<Rightarrow> bool" where
  "renders_ok h level [] = True"
| "renders_ok h level (AT a ks # rest) =
     (\<not> isl (renderValue h level a) \<and> renders_ok h (level + 1) ks \<and> renders_ok h level rest)"

text \<open>
  The lines of a list of siblings and of all below them. \<open>flags\<close> holds, for each
  depth above the siblings, whether the ancestor at that depth was the last of its own
  siblings; a node hands \<open>flags\<close> with its own entry added to its children, and the
  siblings after it get \<open>flags\<close> as it was.
\<close>

fun spec_nodes :: "heap \<Rightarrow> bool list \<Rightarrow> atree list \<Rightarrow> string" where
  "spec_nodes h flags [] = []"
| "spec_nodes h flags (AT a ks # rest) =
     concat (map segment flags) @ connector (rest = []) @ '' ''
       @ meta_prefix (Meta (h ! a)) @ value_text h (int (length flags)) a @ [CHR 0x0A]
       @ spec_nodes h (flags @ [rest = []]) ks
       @ spec_nodes h flags rest"

text \<open>
  The list \<^verbatim>\<open>levelsEnded\<close> of the code and the flags of the specification say the same
  about every depth above the current level.
\<close>

definition agree :: "int list \<Rightarrow> bool list \<Rightarrow> bool" where
  "agree levelsEnded flags =
     ((\<forall>d < length flags. isEnded levelsEnded (int d) = flags ! d) \<and>
      (\<forall>x \<in> set levelsEnded. x < int (length flags)))"

text \<open>A result with the bytes \<open>w\<close> put in front of what was written.\<close>

definition shift :: "string \<Rightarrow> string res \<Rightarrow> string res" where
  "shift w r = (case r of Inl e \<Rightarrow> Inl e | Inr out \<Rightarrow> Inr (w @ out))"

subsection \<open>Parent links\<close>

text \<open>
  \<open>upchain h r path\<close>: the nodes of \<open>path\<close>, the one nearest to the root first, are
  linked by their \<^verbatim>\<open>Root\<close> fields, and the first one's \<^verbatim>\<open>Root\<close> is \<open>r\<close>.
\<close>

fun upchain :: "heap \<Rightarrow> ptr \<Rightarrow> ptr list \<Rightarrow> bool" where
  "upchain h r [] = True"
| "upchain h r (a # as) =
     (a < length h \<and> r < length h \<and> Root (h ! a) = Some r \<and> upchain h a as)"

text \<open>Whether a node with a parent is the last of its parent's children.\<close>

definition last_sibling :: "heap \<Rightarrow> ptr \<Rightarrow> bool" where
  "last_sibling h a = (case isLast h a of Inl e \<Rightarrow> False | Inr b \<Rightarrow> b)"

text \<open>Walking up from a node, a node without parent is reached after at most \<open>k\<close> steps.\<close>

fun rooted_within :: "heap \<Rightarrow> nat \<Rightarrow> ptr \<Rightarrow> bool" where
  "rooted_within h 0 a = (a < length h \<and> Root (h ! a) = None)"
| "rooted_within h (Suc k) a =
     (a < length h \<and>
      (case Root (h ! a) of None \<Rightarrow> True | Some r \<Rightarrow> r < length h \<and> rooted_within h k r))"

text \<open>
  What the add-operations keep true of a store: a child is allocated after its parent,
  lies in the store, and its \<^verbatim>\<open>Root\<close> is the node that lists it.
\<close>

definition linked :: "heap \<Rightarrow> bool" where
  "linked h =
     (\<forall>a < length h. \<forall>c \<in> set (Nodes (h ! a)).
        a < c \<and> c < length h \<and> Root (h ! c) = Some a)"

section \<open>Example stores\<close>

text \<open>
  \<^verbatim>\<open>t := New(); a := t.AddBranch("a"); a.AddMetaNode("m", "b")\<close>
\<close>

definition store_search :: heap where
  "store_search =
     [\<lparr>Root = None, Meta = VNil, Value = VStr ''.'', Nodes = [1]\<rparr>,
      \<lparr>Root = Some 0, Meta = VNil, Value = VStr ''a'', Nodes = [2]\<rparr>,
      \<lparr>Root = Some 1, Meta = VStr ''m'', Value = VStr ''b'', Nodes = []\<rparr>]"

text \<open>
  \<^verbatim>\<open>t := New(); t.AddNode("A"); t.AddNode("B")\<close>
\<close>

definition store_flat :: heap where
  "store_flat =
     [\<lparr>Root = None, Meta = VNil, Value = VStr ''.'', Nodes = [1, 2]\<rparr>,
      \<lparr>Root = Some 0, Meta = VNil, Value = VStr ''A'', Nodes = []\<rparr>,
      \<lparr>Root = Some 0, Meta = VNil, Value = VStr ''B'', Nodes = []\<rparr>]"

text \<open>
  \<^verbatim>\<open>t := New(); a := t.AddBranch("a"); c := a.AddBranch("x\ny")\<close>
\<close>

definition store_deep :: heap where
  "store_deep =
     [\<lparr>Root = None, Meta = VNil, Value = VStr ''.'', Nodes = [1]\<rparr>,
      \<lparr>Root = Some 0, Meta = VNil, Value = VStr ''a'', Nodes = [2]\<rparr>,
      \<lparr>Root = Some 1, Meta = VNil, Value = VStr [CHR ''x'', CHR 0x0A, CHR ''y''], Nodes = []\<rparr>]"

text \<open>
  \<^verbatim>\<open>t := New(); a := t.AddBranch("a"); a.AddMetaNode(0, "c\nd"); a.AddNode(false);
  t.AddMetaNode(1, "x")\<close>
\<close>

definition store_mixed :: heap where
  "store_mixed =
     [\<lparr>Root = None, Meta = VNil, Value = VStr ''.'', Nodes = [1, 4]\<rparr>,
      \<lparr>Root = Some 0, Meta = VNil, Value = VStr ''a'', Nodes = [2, 3]\<rparr>,
      \<lparr>Root = Some 1, Meta = VInt 0, Value = VStr [CHR ''c'', CHR 0x0A, CHR ''d''], Nodes = []\<rparr>,
      \<lparr>Root = Some 1, Meta = VNil, Value = VBool False, Nodes = []\<rparr>,
      \<lparr>Root = Some 0, Meta = VInt 1, Value = VStr ''x'', Nodes = []\<rparr>]"

definition forest_mixed :: "atree list" where
  "forest_mixed = [AT 1 [AT 2 [], AT 3 []], AT 4 []]"

section \<open>Search and traversal on trees\<close>

lemma FindByMeta_loop_Nil: "FindByMeta_loop h [] meta = Some (Inr None)"
  by (subst FindByMeta_loop.simps) simp

lemma FindByMeta_loop_Cons:
  "FindByMeta_loop h (node # rest) meta =
     (if length h \<le> node then Some (Inl NilDeref)
      else if Meta (h ! node) = meta then Some (Inr (Some node))
      else Option.bind (FindByMeta_loop h (Nodes (h ! node)) meta)
             (\<lambda>r. case r of
                     Inl e \<Rightarrow> Some (Inl e)
                   | Inr (Some v) \<Rightarrow> Some (Inr (Some v))
                   | Inr None \<Rightarrow> FindByMeta_loop h rest meta))"
  by (subst FindByMeta_loop.simps) simp

lemma find_app:
  "find P (xs @ ys) = (case find P xs of None \<Rightarrow> find P ys | Some x \<Rightarrow> Some x)"
  by (induction xs) auto

lemma FindByMeta_loop_shapes:
  "shapes h ts \<Longrightarrow>
     FindByMeta_loop h (map addr_of ts) meta =
       Some (Inr (find (\<lambda>a. Meta (h ! a) = meta) (preorder ts)))"
proof (induction h ts rule: shapes.induct)
  case (1 h)
  show ?case by (simp add: FindByMeta_loop_Nil)
next
  case (2 h a ks rest)
  then show ?case
    by (simp add: FindByMeta_loop_Cons find_app split: option.split)
qed

lemma shapes_append: "shapes h (xs @ ys) = (shapes h xs \<and> shapes h ys)"
  by (induction h xs rule: shapes.induct) auto

lemma preorder_append: "preorder (xs @ ys) = preorder xs @ preorder ys"
  by (induction xs rule: preorder.induct) auto

lemma shapes_unique:
  "shapes h ts \<Longrightarrow> shapes h us \<Longrightarrow> map addr_of ts = map addr_of us \<Longrightarrow> ts = us"
proof (induction h ts arbitrary: us rule: shapes.induct)
  case (1 h)
  then show ?case by simp
next
  case (2 h a ks rest)
  then obtain b ls rest' where us: "us = AT b ls # rest'"
    by (cases us) (auto, metis addr_of.elims)
  with 2 show ?case by auto
qed

lemma subtree_of_member:
  "shapes h ts \<Longrightarrow> p \<in> set (preorder ts) \<Longrightarrow>
     \<exists>ks. shapes h [AT p ks] \<and> size_list size (ks) < size_list size ts"
proof (induction h ts rule: shapes.induct)
  case (1 h)
  then show ?case by simp
next
  case (2 h a ks rest)
  then show ?case by (fastforce)
qed

lemma receiver_not_below:
  assumes "shapes h [AT n ks]"
  shows "n \<notin> set (preorder ks)"
proof
  assume "n \<in> set (preorder ks)"
  moreover from assms have "shapes h ks" by simp
  ultimately obtain ls where l: "shapes h [AT n ls]" "size_list size ls < size_list size ks"
    using subtree_of_member by blast
  from shapes_unique[OF assms l(1)] have "ks = ls" by simp
  with l(2) show False by simp
qed


lemma FindByValue_loop_shapes:
  "shapes h ts \<Longrightarrow>
     \<exists>r. FindByValue_loop h (map addr_of ts) v = Some (Inr r) \<and>
         (\<forall>p. r = Some p \<longrightarrow> p \<in> set (preorder ts))"
proof (induction h ts rule: shapes.induct)
  case (1 h)
  show ?case by simp
next
  case (2 h a ks rest)
  from 2 have m: "FindByMeta h a v = Some (Inr (find (\<lambda>a. Meta (h ! a) = v) (preorder ks)))"
    by (simp add: FindByMeta_def FindByMeta_loop_shapes)
  show ?case
  proof (cases "find (\<lambda>a. Meta (h ! a) = v) (preorder ks)")
    case None
    with 2 m show ?thesis by auto
  next
    case (Some w)
    then have "w \<in> set (preorder ks)" by (auto simp: find_Some_iff)
    with 2 m Some show ?thesis by auto
  qed
qed

lemma VisitAll_loop_Nil: "VisitAll_loop h [] fn s = Some (Inr s)"
  by (subst VisitAll_loop.simps) simp

lemma VisitAll_loop_Cons:
  "VisitAll_loop h (node # rest) fn s =
     (let s1 = fn node s in
      if length h \<le> node then Some (Inl NilDeref)
      else if length (Nodes (h ! node)) > 0 then
        Option.bind (VisitAll_loop h (Nodes (h ! node)) fn s1)
          (\<lambda>r. case r of Inl e \<Rightarrow> Some (Inl e) | Inr s2 \<Rightarrow> VisitAll_loop h rest fn s2)
      else VisitAll_loop h rest fn s1)"
  by (subst VisitAll_loop.simps) simp

lemma VisitAll_loop_shapes:
  "shapes h ts \<Longrightarrow>
     VisitAll_loop h (map addr_of ts) fn s = Some (Inr (fold fn (preorder ts) s))"
proof (induction h ts arbitrary: s rule: shapes.induct)
  case (1 h)
  show ?case by (simp add: VisitAll_loop_Nil)
next
  case (2 h a ks rest)
  then show ?case
    by (cases ks) (simp_all add: VisitAll_loop_Cons)
qed

section \<open>The printed lines\<close>

lemma isEnded_set: "isEnded ls d = (d \<in> set ls)"
  by (induction ls) auto

lemma indent_loop_eq:
  "indent_loop le i level wr = wr @ concat (map (\<lambda>d. segment (isEnded le d)) [i..level - 1])"
proof (induction le i level wr rule: indent_loop.induct)
  case (1 le i level wr)
  show ?case
  proof (cases "i < level")
    case True
    then have u: "[i..level - 1] = i # [i + 1..level - 1]"
      by (simp add: upto_rec1)
    from True 1 show ?thesis
      by (subst indent_loop.simps) (simp add: u segment_def)
  next
    case False
    then show ?thesis by (subst indent_loop.simps) simp
  qed
qed

lemma upto_nat_map: "[0..int n - 1] = map int [0..<n]"
  by (auto simp: list_eq_iff_nth_eq)

lemma agree_segments:
  "agree le flags \<Longrightarrow>
     map (\<lambda>d. segment (isEnded le d)) [0..int (length flags) - 1] = map segment flags"
  unfolding agree_def upto_nat_map
  by (intro nth_equalityI) simp_all

lemma agree_segments_last:
  "agree le flags \<Longrightarrow>
     map (\<lambda>d. segment (isEnded (le @ [int (length flags)]) d)) [0..int (length flags) - 1]
       = map segment flags"
  unfolding agree_def upto_nat_map
  by (intro nth_equalityI) (auto simp: isEnded_set)

lemma agree_last: "agree le flags \<Longrightarrow> agree (le @ [int (length flags)]) (flags @ [True])"
  unfolding agree_def by (auto simp: isEnded_set nth_append)

lemma agree_mid: "agree le flags \<Longrightarrow> agree le (flags @ [False])"
  unfolding agree_def by (force simp: isEnded_set nth_append less_Suc_eq)

lemma printNodes_Nil: "printNodes h wr level le [] = Some (Inr wr)"
  by (subst printNodes.simps) simp

lemma printNodes_Cons:
  "printNodes h wr level levelsEnded (node # rest) =
     (let levelsEnded1 = (if rest = [] then levelsEnded @ [level] else levelsEnded);
          edge = (if rest = [] then EdgeTypeEnd else EdgeTypeMid)
      in case printValues h wr level levelsEnded1 edge node of
           Inl e \<Rightarrow> Some (Inl e)
         | Inr wr1 \<Rightarrow>
             if length (Nodes (h ! node)) > 0 then
               Option.bind (printNodes h wr1 (level + 1) levelsEnded1 (Nodes (h ! node)))
                 (\<lambda>r. case r of
                         Inl e \<Rightarrow> Some (Inl e)
                       | Inr wr2 \<Rightarrow> printNodes h wr2 level levelsEnded1 rest)
             else printNodes h wr1 level levelsEnded1 rest)"
  by (subst printNodes.simps) simp

lemma printValues_ok:
  "\<not> isl (renderValue h level a) \<Longrightarrow>
     printValues h wr level le edge a =
       Inr (wr @ concat (map (\<lambda>d. segment (isEnded le d)) [0..level - 1]) @ edge @ '' ''
              @ meta_prefix (Meta (h ! a)) @ value_text h level a @ [CHR 0x0A])"
  by (cases "renderValue h level a")
     (simp_all add: printValues_def indent_loop_eq meta_prefix_def value_text_def)

lemma printNodes_spec:
  "shapes h ts \<Longrightarrow> renders_ok h (int (length flags)) ts \<Longrightarrow> agree le flags \<Longrightarrow>
     printNodes h wr (int (length flags)) le (map addr_of ts) =
       Some (Inr (wr @ spec_nodes h flags ts))"
proof (induction h flags ts arbitrary: wr le rule: spec_nodes.induct)
  case (1 h flags)
  show ?case by (simp add: printNodes_Nil)
next
  case (2 h flags a ks rest)
  let ?L = "int (length flags)"
  from "2.prems" have ok: "\<not> isl (renderValue h ?L a)"
    and sk: "shapes h ks" and sr: "shapes h rest"
    and rk: "renders_ok h (int (length (flags @ [rest = []]))) ks"
    and rr: "renders_ok h ?L rest"
    and nd: "Nodes (h ! a) = map addr_of ks"
    by (simp_all add: add.commute)
  show ?case
  proof (cases "rest = []")
    case True
    from "2.prems"(3) have ag: "agree (le @ [?L]) (flags @ [True])" by (rule agree_last)
    have seg: "map (\<lambda>d. segment (isEnded (le @ [?L]) d)) [0..?L - 1] = map segment flags"
      using agree_segments_last[OF "2.prems"(3)] .
    have k: "\<And>w. printNodes h w (?L + 1) (le @ [?L]) (map addr_of ks)
        = Some (Inr (w @ spec_nodes h (flags @ [True]) ks))"
      using "2.IH"(1)[OF sk rk, of "le @ [?L]"] ag True by (simp add: add.commute)
    show ?thesis using True ok nd
      by (simp add: printNodes_Cons printValues_ok seg k printNodes_Nil connector_def Let_def)
  next
    case False
    from "2.prems"(3) have ag: "agree le (flags @ [False])" by (rule agree_mid)
    have seg: "map (\<lambda>d. segment (isEnded le d)) [0..?L - 1] = map segment flags"
      using agree_segments[OF "2.prems"(3)] .
    have k: "\<And>w. printNodes h w (?L + 1) le (map addr_of ks)
        = Some (Inr (w @ spec_nodes h (flags @ [False]) ks))"
      using "2.IH"(1)[OF sk rk, of le] ag False by (simp add: add.commute)
    have r: "\<And>w. printNodes h w ?L le (map addr_of rest) = Some (Inr (w @ spec_nodes h flags rest))"
      using "2.IH"(2)[OF sr rr "2.prems"(3)] .
    show ?thesis using False ok nd
      by (simp add: printNodes_Cons printValues_ok seg k r printNodes_Nil connector_def Let_def)
  qed
qed

subsection \<open>What the sink held before does not matter\<close>

lemma shift_simps [simp]: "shift w (Inl e) = Inl e" "shift w (Inr out) = Inr (w @ out)"
  by (simp_all add: shift_def)

lemma printValues_shift:
  "printValues h (w @ x) level le edge node = shift w (printValues h x level le edge node)"
  by (simp add: printValues_def indent_loop_eq Let_def split: sum.splits)

lemma printNodes_shift_fwd:
  "printNodes h x level le ns = Some y \<Longrightarrow> printNodes h (w @ x) level le ns = Some (shift w y)"
proof (induction arbitrary: w rule: printNodes.raw_induct[rotated 1, consumes 1, case_names step])
  case (step f h x level le ns y)
  note 1 = step
  show ?case
  proof (cases ns)
    case Nil
    with 1(2) show ?thesis by (auto simp: printNodes_Nil)
  next
    case (Cons node rest)
    let ?le1 = "if rest = [] then le @ [level] else le"
    let ?edge = "if rest = [] then EdgeTypeEnd else EdgeTypeMid"
    show ?thesis
    proof (cases "printValues h x level ?le1 ?edge node")
      case (Inl e)
      with 1(2) Cons show ?thesis
        by (auto simp: printNodes_Cons printValues_shift Let_def)
    next
      case (Inr x1)
      show ?thesis
      proof (cases "0 < length (Nodes (h ! node))")
        case False
        with 1(2) Cons Inr have "f h x1 level ?le1 rest = Some y" by (simp add: Let_def)
        from 1(1)[OF this] show ?thesis using Cons Inr False
          by (auto simp: printNodes_Cons printValues_shift Let_def)
      next
        case True
        with 1(2) Cons Inr obtain r where
          r: "f h x1 (level + 1) ?le1 (Nodes (h ! node)) = Some r"
          and c: "(case r of Inl e \<Rightarrow> Some (Inl e) | Inr x2 \<Rightarrow> f h x2 level ?le1 rest) = Some y"
          by (auto simp: Let_def split: Option.bind_splits)
        have k: "printNodes h (w @ x1) (level + 1) ?le1 (Nodes (h ! node)) = Some (shift w r)"
          by (rule 1(1)[OF r])
        show ?thesis
        proof (cases r)
          case (Inl e)
          with c k Cons Inr True show ?thesis
            by (auto simp: printNodes_Cons printValues_shift Let_def)
        next
          case (Inr x2)
          with c have "f h x2 level ?le1 rest = Some y" by simp
          from 1(1)[OF this, of w] k Cons \<open>printValues h x level ?le1 ?edge node = Inr x1\<close> True Inr
          show ?thesis
            by (auto simp: printNodes_Cons printValues_shift Let_def)
        qed
      qed
    qed
  qed
qed

lemma printNodes_shift_bwd:
  "printNodes h wr level le ns = Some y \<Longrightarrow> wr = w @ x \<Longrightarrow>
     \<exists>y'. printNodes h x level le ns = Some y' \<and> y = shift w y'"
proof (induction arbitrary: w x rule: printNodes.raw_induct[rotated 1, consumes 1, case_names step])
  case (step f h wr level le ns y)
  note 1 = step
  note wr = \<open>wr = w @ x\<close>
  show ?case
  proof (cases ns)
    case Nil
    with 1(2) wr show ?thesis by (auto simp: printNodes_Nil)
  next
    case (Cons node rest)
    let ?le1 = "if rest = [] then le @ [level] else le"
    let ?edge = "if rest = [] then EdgeTypeEnd else EdgeTypeMid"
    show ?thesis
    proof (cases "printValues h x level ?le1 ?edge node")
      case (Inl e)
      with 1(2) Cons wr show ?thesis
        by (auto simp: printNodes_Cons printValues_shift Let_def)
    next
      case (Inr x1)
      then have pv: "printValues h wr level ?le1 ?edge node = Inr (w @ x1)"
        by (simp add: wr printValues_shift)
      show ?thesis
      proof (cases "0 < length (Nodes (h ! node))")
        case False
        with 1(2) Cons pv have "f h (w @ x1) level ?le1 rest = Some y" by (simp add: Let_def)
        from 1(1)[OF this refl] show ?thesis using Cons Inr False
          by (auto simp: printNodes_Cons Let_def)
      next
        case True
        with 1(2) Cons pv obtain r where
          r: "f h (w @ x1) (level + 1) ?le1 (Nodes (h ! node)) = Some r"
          and c: "(case r of Inl e \<Rightarrow> Some (Inl e) | Inr x2 \<Rightarrow> f h x2 level ?le1 rest) = Some y"
          by (auto simp: Let_def split: Option.bind_splits)
        from 1(1)[OF r refl] obtain r' where
          k: "printNodes h x1 (level + 1) ?le1 (Nodes (h ! node)) = Some r'" and rr: "r = shift w r'"
          by blast
        show ?thesis
        proof (cases r')
          case (Inl e)
          with c k rr Cons Inr True show ?thesis
            by (auto simp: printNodes_Cons Let_def)
        next
          case (Inr x2)
          with c rr have "f h (w @ x2) level ?le1 rest = Some y" by simp
          from 1(1)[OF this refl] k Cons \<open>printValues h x level ?le1 ?edge node = Inr x1\<close> True Inr
          show ?thesis
            by (auto simp: printNodes_Cons Let_def)
        qed
      qed
    qed
  qed
qed

lemma printNodes_shift:
  "printNodes h (w @ x) level le ns = map_option (shift w) (printNodes h x level le ns)"
proof (cases "printNodes h x level le ns")
  case None
  show ?thesis
  proof (cases "printNodes h (w @ x) level le ns")
    case (Some y)
    from printNodes_shift_bwd[OF this refl] None show ?thesis by simp
  qed (simp add: None)
next
  case (Some y)
  then show ?thesis by (simp add: printNodes_shift_fwd)
qed

section \<open>Claims about search, traversal and detaching\<close>

text \<open>
  The store \<open>store_search\<close> is built by
  \<^verbatim>\<open>t := New(); a := t.AddBranch("a"); a.AddMetaNode("m", "b")\<close>.
\<close>

lemma store_search_built: "built store_search"
proof -
  have 1: "built [\<lparr>Root = None, Meta = VNil, Value = VStr ''.'', Nodes = []\<rparr>]"
    by (rule built_step[OF built_empty, of New_call]) (simp_all add: with_tree_def New_def)
  have 2: "built [\<lparr>Root = None, Meta = VNil, Value = VStr ''.'', Nodes = [1]\<rparr>,
      \<lparr>Root = Some 0, Meta = VNil, Value = VStr ''a'', Nodes = []\<rparr>]"
    by (rule built_step[OF 1, of "AddBranch_call 0 (VStr ''a'')"])
       (simp_all add: with_tree_def AddBranch_def append_child_def)
  show ?thesis unfolding store_search_def
    by (rule built_step[OF 2, of "AddMetaNode_call 1 (VStr ''m'') (VStr ''b'')"])
       (simp_all add: with_tree_def AddMetaNode_def append_child_def)
qed

text \<open>
  Claim C1. \<^verbatim>\<open>FindByValue\<close> is to return the first node in pre-order whose value equals
  the target. Evaluated on \<open>store_search\<close>, the code does not: below a child it calls
  \<^verbatim>\<open>FindByMeta\<close>, so the grandchild with value \<^verbatim>\<open>"b"\<close> is not found by its value, and it is
  returned for the target \<^verbatim>\<open>"m"\<close>, which is its metadata and not its value.
\<close>

theorem FindByValue_misses_values_below_children:
  "FindByValue store_search 0 (VStr ''b'') = Some (Inr None)
   \<and> Value (store_search ! 2) = VStr ''b''
   \<and> FindByValue store_search 0 (VStr ''m'') = Some (Inr (Some 2))
   \<and> Value (store_search ! 2) \<noteq> VStr ''m''"
  by (simp add: store_search_def FindByValue_def FindByMeta_def FindByMeta_loop_Cons
        FindByMeta_loop_Nil)

text \<open>
  Claim C7. On a tree, \<^verbatim>\<open>VisitAll\<close> returns, and the visitor has been applied to each child
  followed by all that is below it before the next child, in the order of \<open>preorder\<close>;
  with a visitor that records its argument the record is that list. The receiver is not
  in it.
\<close>

theorem VisitAll_order:
  assumes "shapes h [AT n ks]"
  shows "VisitAll h n fn s = Some (Inr (fold fn (preorder ks) s))
         \<and> VisitAll h n (\<lambda>node seen. seen @ [node]) [] = Some (Inr (preorder ks))
         \<and> n \<notin> set (preorder ks)"
proof -
  from assms have n: "n < length h" and nd: "Nodes (h ! n) = map addr_of ks" and sk: "shapes h ks"
    by simp_all
  have tr: "fold (\<lambda>node seen. seen @ [node]) xs acc = acc @ xs" for xs acc :: "ptr list"
    by (induction xs arbitrary: acc) simp_all
  from n nd sk show ?thesis
    by (simp add: VisitAll_def VisitAll_loop_shapes tr receiver_not_below[OF assms])
qed

theorem VisitAll_order_witness:
  "VisitAll store_mixed 0 (\<lambda>node seen. seen @ [node]) [] = Some (Inr [1, 2, 3, 4])"
proof -
  have "shapes store_mixed [AT 0 forest_mixed]"
    by (simp add: store_mixed_def forest_mixed_def)
  from VisitAll_order[OF this, of "\<lambda>node seen. seen @ [node]" "[]"]
  show ?thesis by (simp add: forest_mixed_def)
qed

text \<open>
  Claim C8. \<^verbatim>\<open>Branch\<close> on a node of the store returns that node and a store in which the
  node has no parent. Applying it again changes nothing, it changes nothing on a node
  without parent, and children, value and metadata of the node as well as every other
  node stay as they were.
\<close>

theorem Branch_detaches_parent_only:
  assumes "n < length h"
  shows "\<exists>h'. Branch h n = Inr (n, h')
           \<and> Root (h' ! n) = None
           \<and> Branch h' n = Inr (n, h')
           \<and> (Root (h ! n) = None \<longrightarrow> h' = h)
           \<and> Nodes (h' ! n) = Nodes (h ! n)
           \<and> Value (h' ! n) = Value (h ! n)
           \<and> Meta (h' ! n) = Meta (h ! n)
           \<and> length h' = length h
           \<and> (\<forall>m. m \<noteq> n \<longrightarrow> h' ! m = h ! m)"
proof -
  have "Root (h ! n) = None \<longrightarrow> h[n := (h ! n)\<lparr>Root := None\<rparr>] = h"
  proof
    assume r: "Root (h ! n) = None"
    have "(h ! n)\<lparr>Root := None\<rparr> = h ! n"
      using r by (cases "h ! n") simp
    then show "h[n := (h ! n)\<lparr>Root := None\<rparr>] = h"
      by (simp only: list_update_id)
  qed
  with assms show ?thesis by (simp add: Branch_def)
qed

theorem Branch_detaches_parent_only_witness:
  "Branch store_flat 1 = Inr (1, store_flat[1 := (store_flat ! 1)\<lparr>Root := None\<rparr>])
   \<and> Root (store_flat ! 1) = Some 0
   \<and> Branch store_flat 0 = Inr (0, store_flat)
   \<and> Root (store_flat ! 0) = None"
proof -
  have 1: "1 < length store_flat" and 0: "0 < length store_flat"
    by (simp_all add: store_flat_def)
  have r: "Root (store_flat ! 0) = None" by (simp add: store_flat_def)
  from Branch_detaches_parent_only[OF 1] Branch_detaches_parent_only[OF 0] r show ?thesis
    by (auto simp: Branch_def store_flat_def)
qed

text \<open>
  Claim C10. On a tree, \<^verbatim>\<open>FindByMeta\<close> returns the first node of the pre-order below the
  receiver whose metadata is the target, \<^verbatim>\<open>FindByValue\<close> returns nil or a node of that
  pre-order, the receiver is not in that pre-order, and both return nil on a receiver
  without children.
\<close>

theorem Find_reaches_strict_descendants_only:
  assumes "shapes h [AT n ks]"
  shows "FindByMeta h n m = Some (Inr (find (\<lambda>a. Meta (h ! a) = m) (preorder ks)))
         \<and> (\<exists>r. FindByValue h n v = Some (Inr r) \<and> (\<forall>p. r = Some p \<longrightarrow> p \<in> set (preorder ks)))
         \<and> n \<notin> set (preorder ks)
         \<and> (ks = [] \<longrightarrow> FindByMeta h n m = Some (Inr None) \<and> FindByValue h n v = Some (Inr None))"
proof -
  from assms have n: "n < length h" and nd: "Nodes (h ! n) = map addr_of ks" and sk: "shapes h ks"
    by simp_all
  have a: "FindByMeta h n m = Some (Inr (find (\<lambda>a. Meta (h ! a) = m) (preorder ks)))"
    using n nd sk by (simp add: FindByMeta_def FindByMeta_loop_shapes)
  have b: "\<exists>r. FindByValue h n v = Some (Inr r) \<and> (\<forall>p. r = Some p \<longrightarrow> p \<in> set (preorder ks))"
    using n nd FindByValue_loop_shapes[OF sk, of v] by (simp add: FindByValue_def)
  have c: "ks = [] \<longrightarrow> FindByMeta h n m = Some (Inr None) \<and> FindByValue h n v = Some (Inr None)"
    using n nd by (simp add: FindByMeta_def FindByValue_def FindByMeta_loop_Nil)
  from a b c receiver_not_below[OF assms] show ?thesis by blast
qed

theorem Find_reaches_strict_descendants_only_witness:
  "FindByMeta store_mixed 0 VNil = Some (Inr (Some 1))
   \<and> Meta (store_mixed ! 0) = VNil
   \<and> FindByMeta store_mixed 4 (VInt 1) = Some (Inr None)
   \<and> Meta (store_mixed ! 4) = VInt 1"
proof -
  have 0: "shapes store_mixed [AT 0 forest_mixed]"
    by (simp add: store_mixed_def forest_mixed_def)
  have 4: "shapes store_mixed [AT 4 []]"
    by (simp add: store_mixed_def)
  from Find_reaches_strict_descendants_only[OF 0, of VNil]
       Find_reaches_strict_descendants_only[OF 4, of "VInt 1"]
  show ?thesis by (simp add: forest_mixed_def store_mixed_def)
qed

section \<open>Claims about rendering\<close>

lemma Writer_shift:
  "Writer h n (w @ x) = map_option (shift w) (Writer h n x)"
  by (simp add: Writer_def Let_def printValues_shift printNodes_shift shift_def
           split: sum.splits)

text \<open>
  Claim C9. \<^verbatim>\<open>String\<close> is \<^verbatim>\<open>Bytes\<close> read as a string, and \<^verbatim>\<open>Writer\<close> on a sink that holds
  \<open>w\<close> leaves \<open>w\<close> followed by exactly the bytes of \<^verbatim>\<open>Bytes\<close>; this holds on every store
  and for every outcome (a panic or a recursion without end of one is that of the other).
\<close>

theorem render_variants_agree:
  "String h n = Bytes h n \<and> Writer h n w = map_option (shift w) (Bytes h n)"
  using Writer_shift[of h n w "[]"] by (simp add: String_def Bytes_def)

lemma Writer_root:
  assumes "shapes h [AT n ks]" and "renders_ok h 0 ks" and "Root (h ! n) = None"
  shows "Writer h n w =
           Some (Inr (w @ meta_prefix (Meta (h ! n)) @ fmtv (Value (h ! n)) @ [CHR 0x0A]
                        @ spec_nodes h [] ks))"
proof -
  from assms(1) have n: "n < length h" and nd: "Nodes (h ! n) = map addr_of ks" and sk: "shapes h ks"
    by simp_all
  have ag: "agree [] []" by (simp add: agree_def)
  have "printNodes h x 0 [] (map addr_of ks) = Some (Inr (x @ spec_nodes h [] ks))" for x
    using printNodes_spec[OF sk _ ag, of x] assms(2) by simp
  with n nd assms(3) show ?thesis
    by (cases ks) (simp_all add: Writer_def meta_prefix_def)
qed

lemma Writer_inner:
  assumes "shapes h [AT n ks]" and "renders_ok h 0 ks" and "Root (h ! n) \<noteq> None"
    and "\<not> isl (renderValue h 0 n)"
  shows "Writer h n w =
           Some (Inr (w @ connector (ks = []) @ '' '' @ meta_prefix (Meta (h ! n))
                        @ value_text h 0 n @ [CHR 0x0A] @ spec_nodes h [] ks))"
proof -
  from assms(1) have n: "n < length h" and nd: "Nodes (h ! n) = map addr_of ks" and sk: "shapes h ks"
    by simp_all
  have ag: "agree [] []" by (simp add: agree_def)
  have "printNodes h x 0 [] (map addr_of ks) = Some (Inr (x @ spec_nodes h [] ks))" for x
    using printNodes_spec[OF sk _ ag, of x] assms(2) by simp
  moreover from assms(3) obtain r where "Root (h ! n) = Some r" by auto
  ultimately show ?thesis using n nd assms(4)
    by (cases ks) (simp_all add: Writer_def printValues_ok connector_def)
qed

text \<open>
  Claim C2, as the code has it. Rendering a tree from the node \<open>n\<close> writes the line of
  \<open>n\<close> and then the lines of \<open>spec_nodes\<close>: every node below \<open>n\<close> gets exactly one
  connector, after its indentation, and it is the end connector if and only if the node
  is the last of the siblings it is printed with. The line of \<open>n\<close> itself has no
  connector when \<open>n\<close> has no parent; when \<open>n\<close> has a parent it has the end connector if
  and only if \<open>n\<close> has no children, whatever the place of \<open>n\<close> among its parent's
  children.
\<close>

theorem Writer_connectors:
  assumes "shapes h [AT n ks]" and "renders_ok h 0 ks"
    and "Root (h ! n) \<noteq> None \<longrightarrow> \<not> isl (renderValue h 0 n)"
  shows "Writer h n w =
           Some (Inr (w @ (if Root (h ! n) = None
                           then meta_prefix (Meta (h ! n)) @ fmtv (Value (h ! n))
                           else connector (ks = []) @ '' '' @ meta_prefix (Meta (h ! n))
                                  @ value_text h 0 n)
                        @ [CHR 0x0A] @ spec_nodes h [] ks))"
proof (cases "Root (h ! n)")
  case None
  with Writer_root[OF assms(1,2)] show ?thesis by simp
next
  case (Some r)
  with Writer_inner[OF assms(1,2)] assms(3) show ?thesis by simp
qed

theorem Writer_connectors_witness:
  "Writer store_mixed 0 [] =
     Some (Inr (''.'' @ [CHR 0x0A] @ spec_nodes store_mixed [] forest_mixed))
   \<and> Writer store_flat 2 [] = Some (Inr (EdgeTypeEnd @ '' B'' @ [CHR 0x0A]))"
proof -
  have 1: "shapes store_mixed [AT 0 forest_mixed]" by code_simp
  have 2: "renders_ok store_mixed 0 forest_mixed" by code_simp
  have 3: "Root (store_mixed ! 0) \<noteq> None \<longrightarrow> \<not> isl (renderValue store_mixed 0 0)" by code_simp
  have 4: "shapes store_flat [AT 2 []]" by code_simp
  have 5: "renders_ok store_flat 0 []" by simp
  have 6: "Root (store_flat ! 2) \<noteq> None \<longrightarrow> \<not> isl (renderValue store_flat 0 2)" by code_simp
  have 7: "value_text store_flat 0 2 = ''B''" by code_simp
  from Writer_connectors[OF 1 2 3, of "[]"] Writer_connectors[OF 4 5 6, of "[]"] 7
  show ?thesis
    by (simp add: store_mixed_def store_flat_def meta_prefix_def connector_def)
qed

text \<open>
  In \<open>store_flat\<close> the node \<open>1\<close> is the first of two children. Rendered from its
  parent its line has the mid connector; rendered from the node itself, which still has
  its parent, the line has the end connector.
\<close>

theorem connector_of_start_node_counterexample:
  "Writer store_flat 1 [] = Some (Inr (EdgeTypeEnd @ '' A'' @ [CHR 0x0A]))
   \<and> Root (store_flat ! 1) = Some 0
   \<and> FindLastNode store_flat 0 = Inr (Some 2)
   \<and> Writer store_flat 0 [] =
       Some (Inr (''.'' @ [CHR 0x0A] @ EdgeTypeMid @ '' A'' @ [CHR 0x0A]
                    @ EdgeTypeEnd @ '' B'' @ [CHR 0x0A]))"
  by code_simp

text \<open>
  Claim C3. \<^verbatim>\<open>printValues\<close> starts a line at level \<open>L\<close> with one segment for each depth
  \<open>0..L-1\<close>, blank (indent width + 1 spaces) where the depth is in \<^verbatim>\<open>levelsEnded\<close> and a
  vertical link followed by indent-width spaces otherwise. \<^verbatim>\<open>printNodes\<close> on a forest
  writes the lines of \<open>spec_nodes\<close>, in which the segment at a depth is blank exactly
  when the ancestor at that depth was a last sibling, and in which the siblings after a
  node are printed with the flags the node itself was printed with.
\<close>

theorem printNodes_prefix_segments:
  assumes "shapes h ts" and "renders_ok h (int (length flags)) ts" and "agree levelsEnded flags"
  shows "printNodes h wr (int (length flags)) levelsEnded (map addr_of ts) =
           Some (Inr (wr @ spec_nodes h flags ts))
         \<and> (\<forall>level edge a. \<not> isl (renderValue h level a) \<longrightarrow>
               printValues h wr level levelsEnded edge a =
                 Inr (wr @ concat (map (\<lambda>d. if isEnded levelsEnded d
                                             then Repeat '' '' (IndentSize + 1)
                                             else EdgeTypeLink @ Repeat '' '' IndentSize)
                                        [0..level - 1])
                         @ edge @ '' '' @ meta_prefix (Meta (h ! a)) @ value_text h level a
                         @ [CHR 0x0A]))"
  using printNodes_spec[OF assms] by (simp add: printValues_ok segment_def)


theorem printNodes_prefix_segments_witness:
  "printNodes store_mixed [] 0 [] [1, 4] =
     Some (Inr (EdgeTypeMid @ '' a'' @ [CHR 0x0A]
                @ EdgeTypeLink @ ''   '' @ EdgeTypeMid @ '' [0]  c'' @ [CHR 0x0A]
                @ EdgeTypeLink @ ''   '' @ EdgeTypeLink @ ''   '' @ ''d'' @ [CHR 0x0A]
                @ EdgeTypeLink @ ''   '' @ EdgeTypeEnd @ '' false'' @ [CHR 0x0A]
                @ EdgeTypeEnd @ '' [1]  x'' @ [CHR 0x0A]))"
proof -
  have 1: "shapes store_mixed forest_mixed" by code_simp
  have 2: "renders_ok store_mixed (int (length ([] :: bool list))) forest_mixed" by code_simp
  have 3: "agree [] []" by (simp add: agree_def)
  have 4: "spec_nodes store_mixed [] forest_mixed =
     EdgeTypeMid @ '' a'' @ [CHR 0x0A]
                @ EdgeTypeLink @ ''   '' @ EdgeTypeMid @ '' [0]  c'' @ [CHR 0x0A]
                @ EdgeTypeLink @ ''   '' @ EdgeTypeLink @ ''   '' @ ''d'' @ [CHR 0x0A]
                @ EdgeTypeLink @ ''   '' @ EdgeTypeEnd @ '' false'' @ [CHR 0x0A]
                @ EdgeTypeEnd @ '' [1]  x'' @ [CHR 0x0A]" by code_simp
  from printNodes_prefix_segments[OF 1 2 3, of "[]"] 4
  show ?thesis by (simp add: forest_mixed_def)
qed

lemma decimal_small: "decimal (Suc 0) = ''1''" "decimal 0 = ''0''"
  by code_simp+

text \<open>
  Claim C6. The line that \<^verbatim>\<open>printValues\<close> writes is the indentation, the connector, a
  space, the bracketed metadata followed by two spaces unless the metadata is nil, and the
  value: for metadata \<open>1\<close> and value \<^verbatim>\<open>"x"\<close> that is the connector followed by
  \<^verbatim>\<open> [1]  x\<close>. The metadata \<open>0\<close> and \<open>false\<close> are not nil and are printed in their
  brackets. The first line of \<^verbatim>\<open>Writer\<close> on a node without parent treats the metadata in
  the same way.
\<close>

theorem metadata_prefix_rendering:
  assumes "renderValue h level node = Inr val"
  shows "printValues h wr level levelsEnded edge node =
           Inr (indent_loop levelsEnded 0 level wr @ edge @ '' ''
                  @ (if Meta (h ! node) = VNil then [] else ''['' @ fmtv (Meta (h ! node)) @ '']  '')
                  @ fmtv val @ [CHR 0x0A])
         \<and> (Meta (h ! node) = VInt 1 \<and> val = VStr ''x'' \<longrightarrow>
              printValues h wr level levelsEnded edge node
                = Inr (indent_loop levelsEnded 0 level wr @ edge @ '' [1]  x'' @ [CHR 0x0A]))
         \<and> (Meta (h ! node) = VInt 0 \<longrightarrow>
              printValues h wr level levelsEnded edge node
                = Inr (indent_loop levelsEnded 0 level wr @ edge @ '' [0]  '' @ fmtv val
                         @ [CHR 0x0A]))
         \<and> (Meta (h ! node) = VBool False \<longrightarrow>
              printValues h wr level levelsEnded edge node
                = Inr (indent_loop levelsEnded 0 level wr @ edge @ '' [false]  '' @ fmtv val
                         @ [CHR 0x0A]))
         \<and> (Root (h ! node) = None \<and> Nodes (h ! node) = [] \<longrightarrow>
              Writer h node wr =
                Some (Inr (wr @ (if Meta (h ! node) = VNil then []
                                 else ''['' @ fmtv (Meta (h ! node)) @ '']  '')
                              @ fmtv (Value (h ! node)) @ [CHR 0x0A])))"
proof -
  from assms have n: "node < length h"
    by (auto simp: renderValue_def split: if_splits)
  have a: "printValues h wr level levelsEnded edge node =
           Inr (indent_loop levelsEnded 0 level wr @ edge @ '' ''
                  @ (if Meta (h ! node) = VNil then [] else ''['' @ fmtv (Meta (h ! node)) @ '']  '')
                  @ fmtv val @ [CHR 0x0A])"
    using assms by (simp add: printValues_def)
  have b: "Root (h ! node) = None \<and> Nodes (h ! node) = [] \<longrightarrow>
              Writer h node wr =
                Some (Inr (wr @ (if Meta (h ! node) = VNil then []
                                 else ''['' @ fmtv (Meta (h ! node)) @ '']  '')
                              @ fmtv (Value (h ! node)) @ [CHR 0x0A]))"
    using n by (simp add: Writer_def)
  from a b show ?thesis by (auto simp: decimal_small)
qed

theorem metadata_prefix_rendering_witness:
  "printValues store_mixed [] 0 [0] EdgeTypeEnd 4 = Inr (EdgeTypeEnd @ '' [1]  x'' @ [CHR 0x0A])
   \<and> printValues store_mixed [] 0 [] EdgeTypeMid 3 = Inr (EdgeTypeMid @ '' false'' @ [CHR 0x0A])"
proof -
  have 4: "renderValue store_mixed 0 4 = Inr (VStr ''x'')"
    by (simp add: renderValue_def store_mixed_def)
  have 3: "renderValue store_mixed 0 3 = Inr (VBool False)"
    by (simp add: renderValue_def store_mixed_def)
  from metadata_prefix_rendering[OF 4, of "[]" "[0]" EdgeTypeEnd]
       metadata_prefix_rendering[OF 3, of "[]" "[]" EdgeTypeMid]
  show ?thesis by (simp add: store_mixed_def indent_loop_eq decimal_small)
qed

section \<open>Stores built by the add-operations\<close>

text \<open>Where the parent links lead to a node without parent soon enough, nothing panics.\<close>

lemma padding_loop_returns:
  "rooted_within h k a \<Longrightarrow> level = int k - 1 \<Longrightarrow> level < int (length links) \<Longrightarrow>
     \<exists>pad. padding_loop h links level a = Inr pad"
proof (induction k arbitrary: links level a)
  case 0
  then show ?case by (subst padding_loop.simps) simp
next
  case (Suc k)
  show ?case
  proof (cases "Root (h ! a)")
    case None
    with Suc.prems show ?thesis by (subst padding_loop.simps) simp
  next
    case (Some r)
    with Suc.prems have r: "r < length h" "rooted_within h k r" and a: "a < length h" by simp_all
    from a r Some have "\<exists>b. isLast h a = Inr b"
      by (auto simp: isLast_def FindLastNode_def Let_def)
    then obtain b where b: "isLast h a = Inr b" ..
    let ?links = "links[nat level := (if b then Repeat '' '' (IndentSize + 1)
                               else EdgeTypeLink @ Repeat '' '' IndentSize)]"
    from Suc.prems have "level - 1 = int k - 1" "level - 1 < int (length ?links)" by simp_all
    from Suc.IH[OF r(2) this] obtain pad where "padding_loop h ?links (level - 1) r = Inr pad" ..
    with a Some b Suc.prems show ?thesis
      by (subst padding_loop.simps) simp
  qed
qed

lemma renderValue_rooted:
  assumes "rooted_within h (Suc k) a"
  shows "\<not> isl (renderValue h (int k) a)"
proof -
  from assms have a: "a < length h" by simp
  have "\<exists>pad. padding h (int k) a = Inr pad"
    using padding_loop_returns[OF assms, of "int k" "replicate (nat (int k + 1)) []"]
    by (simp add: padding_def)
  with a show ?thesis by (auto simp: renderValue_def Let_def)
qed

lemma rooted_within_valid: "rooted_within h k a \<Longrightarrow> a < length h"
  by (cases k) simp_all

lemma linkedD:
  "linked h \<Longrightarrow> a < length h \<Longrightarrow> c \<in> set (Nodes (h ! a)) \<Longrightarrow>
     a < c \<and> c < length h \<and> Root (h ! c) = Some a"
  unfolding linked_def by blast

lemma renders_ok_linked:
  "shapes h ts \<Longrightarrow> linked h \<Longrightarrow> \<forall>t \<in> set ts. Root (h ! addr_of t) = Some p \<Longrightarrow>
     rooted_within h k p \<Longrightarrow> renders_ok h (int k) ts"
proof (induction h ts arbitrary: p k rule: shapes.induct)
  case (1 h)
  show ?case by simp
next
  case (2 h a ks rest)
  from "2.prems" have a: "a < length h" and nd: "Nodes (h ! a) = map addr_of ks"
    and sk: "shapes h ks" and sr: "shapes h rest" and ra: "Root (h ! a) = Some p"
    by simp_all
  from "2.prems"(4) have p: "p < length h" by (rule rooted_within_valid)
  from a ra p "2.prems"(4) have rw: "rooted_within h (Suc k) a" by simp
  have kids: "\<forall>t \<in> set ks. Root (h ! addr_of t) = Some a"
  proof
    fix t assume "t \<in> set ks"
    with nd have "addr_of t \<in> set (Nodes (h ! a))" by simp
    from linkedD[OF "2.prems"(2) a this] show "Root (h ! addr_of t) = Some a" by simp
  qed
  have 1: "renders_ok h (int (Suc k)) ks"
    by (rule "2.IH"(1)[OF sk "2.prems"(2) kids rw])
  have 2: "renders_ok h (int k) rest"
    using "2.IH"(2)[OF sr "2.prems"(2) _ "2.prems"(4)] "2.prems"(3) by simp
  have e: "int (Suc k) = int k + 1" by simp
  from 1 have 3: "renders_ok h (int k + 1) ks" unfolding e .
  from 3 2 renderValue_rooted[OF rw] show ?case by simp
qed

lemma shapes_of_children:
  "\<forall>c \<in> set cs. \<exists>ks. shapes h [AT c ks] \<Longrightarrow> \<exists>ts. map addr_of ts = cs \<and> shapes h ts"
proof (induction cs)
  case Nil
  show ?case by simp
next
  case (Cons c cs)
  then obtain ks ts where "shapes h [AT c ks]" "map addr_of ts = cs" "shapes h ts" by auto
  then have "map addr_of (AT c ks # ts) = c # cs \<and> shapes h (AT c ks # ts)" by simp
  then show ?case by (rule exI[of _ "AT c ks # ts"])
qed

lemma linked_shape:
  "linked h \<Longrightarrow> a < length h \<Longrightarrow> \<exists>ks. shapes h [AT a ks]"
proof (induction "length h - a" arbitrary: a rule: less_induct)
  case less
  have "\<forall>c \<in> set (Nodes (h ! a)). \<exists>ks. shapes h [AT c ks]"
  proof
    fix c assume c: "c \<in> set (Nodes (h ! a))"
    from linkedD[OF less.prems c] have ac: "a < c" and cl: "c < length h" by simp_all
    then have "length h - c < length h - a" by simp
    from less.hyps[OF this less.prems(1) cl] show "\<exists>ks. shapes h [AT c ks]" .
  qed
  from shapes_of_children[OF this] obtain ts where "map addr_of ts = Nodes (h ! a)" "shapes h ts"
    by blast
  with less.prems(2) have "shapes h [AT a ts]" by simp
  then show ?case ..
qed

lemma append_child_length: "length (append_child h n m v) = Suc (length h)"
  by (simp add: append_child_def)

lemma append_child_Nodes:
  "n < length h \<Longrightarrow> a \<le> length h \<Longrightarrow>
     Nodes (append_child h n m v ! a) =
       (if a = n then Nodes (h ! n) @ [length h] else if a < length h then Nodes (h ! a) else [])"
  by (simp add: append_child_def nth_list_update nth_append)

lemma append_child_Root:
  "n < length h \<Longrightarrow> c \<le> length h \<Longrightarrow>
     Root (append_child h n m v ! c) = (if c < length h then Root (h ! c) else Some n)"
  by (simp add: append_child_def nth_list_update nth_append)

lemma linked_append_root:
  assumes "linked h"
  shows "linked (h @ [\<lparr>Root = None, Meta = m, Value = v, Nodes = []\<rparr>])"
  unfolding linked_def
proof (intro allI impI ballI)
  fix a c
  let ?h = "h @ [\<lparr>Root = None, Meta = m, Value = v, Nodes = []\<rparr>]"
  assume a: "a < length ?h" and c: "c \<in> set (Nodes (?h ! a))"
  from a c have al: "a < length h" by (cases "a < length h") (simp_all add: nth_append)
  with c have "c \<in> set (Nodes (h ! a))" by (simp add: nth_append)
  from linkedD[OF assms al this] show "a < c \<and> c < length ?h \<and> Root (?h ! c) = Some a"
    by (simp add: nth_append)
qed

lemma linked_append_child:
  assumes "linked h" and n: "n < length h"
  shows "linked (append_child h n m v)"
  unfolding linked_def
proof (intro allI impI ballI)
  fix a c
  let ?h = "append_child h n m v"
  assume "a < length ?h" and c: "c \<in> set (Nodes (?h ! a))"
  then have a: "a \<le> length h" by (simp add: append_child_length)
  show "a < c \<and> c < length ?h \<and> Root (?h ! c) = Some a"
  proof (cases "c = length h")
    case True
    have "a = n"
    proof (rule ccontr)
      assume "a \<noteq> n"
      with c a n have al: "a < length h" and "c \<in> set (Nodes (h ! a))"
        by (auto simp: append_child_Nodes split: if_splits)
      from linkedD[OF assms(1) this] True show False by simp
    qed
    with True n show ?thesis by (simp add: append_child_length append_child_Root)
  next
    case False
    with c a n have al: "a < length h" and ci: "c \<in> set (Nodes (h ! a))"
      by (auto simp: append_child_Nodes split: if_splits)
    from linkedD[OF assms(1) al ci] n show ?thesis
      by (simp add: append_child_length append_child_Root)
  qed
qed

lemma built_linked: "built h \<Longrightarrow> linked h"
proof (induction rule: built.induct)
  case built_empty
  show ?case by (simp add: linked_def)
next
  case (built_step h c r h')
  show ?case
  proof (cases c)
    case New_call
    with built_step show ?thesis
      by (auto simp: with_tree_def New_def linked_append_root)
  next
    case (NewWithRoot_call v)
    with built_step show ?thesis
      by (auto simp: with_tree_def NewWithRoot_def linked_append_root)
  next
    case (AddNode_call n v)
    with built_step show ?thesis
      by (auto simp: with_tree_def AddNode_def linked_append_child split: if_splits)
  next
    case (AddMetaNode_call n m v)
    with built_step show ?thesis
      by (auto simp: with_tree_def AddMetaNode_def linked_append_child split: if_splits)
  next
    case (AddBranch_call n v)
    with built_step show ?thesis
      by (auto simp: with_tree_def AddBranch_def linked_append_child split: if_splits)
  next
    case (AddMetaBranch_call n m v)
    with built_step show ?thesis
      by (auto simp: with_tree_def AddMetaBranch_def linked_append_child split: if_splits)
  qed (use built_step in simp_all)
qed

lemma Writer_built_root:
  assumes "built h" and n: "n < length h" and r: "Root (h ! n) = None"
  shows "\<exists>ks. shapes h [AT n ks] \<and> renders_ok h 0 ks"
proof -
  from built_linked[OF assms(1)] have l: "linked h" .
  from linked_shape[OF l n] obtain ks where s: "shapes h [AT n ks]" ..
  then have sk: "shapes h ks" and nd: "Nodes (h ! n) = map addr_of ks" by simp_all
  have kids: "\<forall>t \<in> set ks. Root (h ! addr_of t) = Some n"
  proof
    fix t assume "t \<in> set ks"
    with nd have "addr_of t \<in> set (Nodes (h ! n))" by simp
    from linkedD[OF l n this] show "Root (h ! addr_of t) = Some n" by simp
  qed
  from n r have "rooted_within h 0 n" by simp
  from renders_ok_linked[OF sk l kids this] s show ?thesis by auto
qed

lemma with_text_Inr:
  "with_text h r = Some (Inr (x, h')) \<Longrightarrow> h' = h \<and> (\<exists>out. r = Some (Inr out) \<and> x = RText out)"
  by (auto simp: with_text_def split: option.splits sum.splits)

lemma store_mixed_built: "built store_mixed"
proof -
  have 1: "built [\<lparr>Root = None, Meta = VNil, Value = VStr ''.'', Nodes = []\<rparr>]"
    by (rule built_step[OF built_empty, of New_call]) (simp_all add: with_tree_def New_def)
  have 2: "built [\<lparr>Root = None, Meta = VNil, Value = VStr ''.'', Nodes = [1]\<rparr>,
      \<lparr>Root = Some 0, Meta = VNil, Value = VStr ''a'', Nodes = []\<rparr>]"
    by (rule built_step[OF 1, of "AddBranch_call 0 (VStr ''a'')"])
       (simp_all add: with_tree_def AddBranch_def append_child_def)
  have 3: "built [\<lparr>Root = None, Meta = VNil, Value = VStr ''.'', Nodes = [1]\<rparr>,
      \<lparr>Root = Some 0, Meta = VNil, Value = VStr ''a'', Nodes = [2]\<rparr>,
      \<lparr>Root = Some 1, Meta = VInt 0, Value = VStr [CHR ''c'', CHR 0x0A, CHR ''d''], Nodes = []\<rparr>]"
    by (rule built_step[OF 2, of "AddMetaNode_call 1 (VInt 0) (VStr [CHR ''c'', CHR 0x0A, CHR ''d''])"])
       (simp_all add: with_tree_def AddMetaNode_def append_child_def)
  have 4: "built [\<lparr>Root = None, Meta = VNil, Value = VStr ''.'', Nodes = [1]\<rparr>,
      \<lparr>Root = Some 0, Meta = VNil, Value = VStr ''a'', Nodes = [2, 3]\<rparr>,
      \<lparr>Root = Some 1, Meta = VInt 0, Value = VStr [CHR ''c'', CHR 0x0A, CHR ''d''], Nodes = []\<rparr>,
      \<lparr>Root = Some 1, Meta = VNil, Value = VBool False, Nodes = []\<rparr>]"
    by (rule built_step[OF 3, of "AddNode_call 1 (VBool False)"])
       (simp_all add: with_tree_def AddNode_def append_child_def)
  show ?thesis unfolding store_mixed_def
    by (rule built_step[OF 4, of "AddMetaNode_call 0 (VInt 1) (VStr ''x'')"])
       (simp_all add: with_tree_def AddMetaNode_def append_child_def)
qed

lemma store_deep_built: "built store_deep"
proof -
  have 1: "built [\<lparr>Root = None, Meta = VNil, Value = VStr ''.'', Nodes = []\<rparr>]"
    by (rule built_step[OF built_empty, of New_call]) (simp_all add: with_tree_def New_def)
  have 2: "built [\<lparr>Root = None, Meta = VNil, Value = VStr ''.'', Nodes = [1]\<rparr>,
      \<lparr>Root = Some 0, Meta = VNil, Value = VStr ''a'', Nodes = []\<rparr>]"
    by (rule built_step[OF 1, of "AddBranch_call 0 (VStr ''a'')"])
       (simp_all add: with_tree_def AddBranch_def append_child_def)
  show ?thesis unfolding store_deep_def
    by (rule built_step[OF 2, of "AddBranch_call 1 (VStr [CHR ''x'', CHR 0x0A, CHR ''y''])"])
       (simp_all add: with_tree_def AddBranch_def append_child_def)
qed

text \<open>
  Claim C5. On a store built by the factories and the add-operations, a render call
  that returns leaves the store it was given, so that the tree is unmodified, and the
  same call on that store returns the same bytes again; for \<^verbatim>\<open>Writer\<close> the second call
  appends to the sink the bytes that the first call appended. Rendering from a node
  without parent does return, and the three calls produce the same bytes.
\<close>

theorem render_twice_identical:
  assumes "built h"
  shows "(\<forall>r h'. exec (String_call n) h = Some (Inr (r, h')) \<longrightarrow>
            h' = h \<and> exec (String_call n) h' = Some (Inr (r, h')))
       \<and> (\<forall>r h'. exec (Bytes_call n) h = Some (Inr (r, h')) \<longrightarrow>
            h' = h \<and> exec (Bytes_call n) h' = Some (Inr (r, h')))
       \<and> (\<forall>r h'. exec (Writer_call n w) h = Some (Inr (r, h')) \<longrightarrow>
            h' = h \<and> (\<exists>out. r = RText (w @ out) \<and>
                        exec (Writer_call n (w @ out)) h' = Some (Inr (RText (w @ out @ out), h'))))
       \<and> (n < length h \<and> Root (h ! n) = None \<longrightarrow>
            (\<exists>out. exec (Bytes_call n) h = Some (Inr (RText out, h))
                 \<and> exec (String_call n) h = Some (Inr (RText out, h))
                 \<and> exec (Writer_call n w) h = Some (Inr (RText (w @ out), h))))"
proof -
  have a: "\<forall>r h'. exec (String_call n) h = Some (Inr (r, h')) \<longrightarrow>
            h' = h \<and> exec (String_call n) h' = Some (Inr (r, h'))"
    by (auto dest: with_text_Inr)
  have b: "\<forall>r h'. exec (Bytes_call n) h = Some (Inr (r, h')) \<longrightarrow>
            h' = h \<and> exec (Bytes_call n) h' = Some (Inr (r, h'))"
    by (auto dest: with_text_Inr)
  have c: "\<forall>r h'. exec (Writer_call n w) h = Some (Inr (r, h')) \<longrightarrow>
            h' = h \<and> (\<exists>out. r = RText (w @ out) \<and>
                        exec (Writer_call n (w @ out)) h' = Some (Inr (RText (w @ out @ out), h')))"
  proof (intro allI impI)
    fix r h' assume "exec (Writer_call n w) h = Some (Inr (r, h'))"
    then have "with_text h (Writer h n w) = Some (Inr (r, h'))" by simp
    from with_text_Inr[OF this] obtain w1 where h': "h' = h" and w1: "Writer h n w = Some (Inr w1)"
      and r: "r = RText w1" by blast
    from w1 Writer_shift[of h n w "[]"] obtain out where
      out: "Writer h n [] = Some (Inr out)" and e: "w1 = w @ out"
      by (cases "Writer h n []") (auto simp: shift_def split: sum.splits)
    from out Writer_shift[of h n "w @ out" "[]"]
    have "Writer h n (w @ out) = Some (Inr (w @ out @ out))" by simp
    with h' r e show "h' = h \<and> (\<exists>out. r = RText (w @ out) \<and>
        exec (Writer_call n (w @ out)) h' = Some (Inr (RText (w @ out @ out), h')))"
      by (auto simp: with_text_def)
  qed
  have d: "n < length h \<and> Root (h ! n) = None \<longrightarrow>
            (\<exists>out. exec (Bytes_call n) h = Some (Inr (RText out, h))
                 \<and> exec (String_call n) h = Some (Inr (RText out, h))
                 \<and> exec (Writer_call n w) h = Some (Inr (RText (w @ out), h)))"
  proof
    assume "n < length h \<and> Root (h ! n) = None"
    then have n: "n < length h" and r: "Root (h ! n) = None" by simp_all
    from Writer_built_root[OF assms n r] obtain ks where
      s: "shapes h [AT n ks]" and ok: "renders_ok h 0 ks" by blast
    let ?out = "meta_prefix (Meta (h ! n)) @ fmtv (Value (h ! n)) @ [CHR 0x0A] @ spec_nodes h [] ks"
    from Writer_root[OF s ok r] have "\<And>x. Writer h n x = Some (Inr (x @ ?out))" .
    then have "exec (Bytes_call n) h = Some (Inr (RText ?out, h))
                 \<and> exec (String_call n) h = Some (Inr (RText ?out, h))
                 \<and> exec (Writer_call n w) h = Some (Inr (RText (w @ ?out), h))"
      by (simp add: with_text_def Bytes_def String_def)
    then show "\<exists>out. exec (Bytes_call n) h = Some (Inr (RText out, h))
                 \<and> exec (String_call n) h = Some (Inr (RText out, h))
                 \<and> exec (Writer_call n w) h = Some (Inr (RText (w @ out), h))" by (rule exI)
  qed
  from a b c d show ?thesis by blast
qed

theorem render_twice_identical_witness:
  "built store_mixed \<and> 0 < length store_mixed \<and> Root (store_mixed ! 0) = None
   \<and> exec (Bytes_call 0) store_mixed =
       Some (Inr (RText (''.'' @ [CHR 0x0A] @ spec_nodes store_mixed [] forest_mixed), store_mixed))
   \<and> exec (Writer_call 0 ''>'') store_mixed =
       Some (Inr (RText (''>.'' @ [CHR 0x0A] @ spec_nodes store_mixed [] forest_mixed), store_mixed))"
proof -
  have p: "0 < length store_mixed \<and> Root (store_mixed ! 0) = None"
    by (simp add: store_mixed_def)
  have b: "Bytes store_mixed 0 =
       Some (Inr (''.'' @ [CHR 0x0A] @ spec_nodes store_mixed [] forest_mixed))"
    by code_simp
  then have e: "exec (Bytes_call 0) store_mixed =
       Some (Inr (RText (''.'' @ [CHR 0x0A] @ spec_nodes store_mixed [] forest_mixed), store_mixed))"
    by (simp add: with_text_def)
  from render_twice_identical[OF store_mixed_built, of 0 "''>''"]
  have "0 < length store_mixed \<and> Root (store_mixed ! 0) = None \<longrightarrow>
            (\<exists>out. exec (Bytes_call 0) store_mixed = Some (Inr (RText out, store_mixed))
                 \<and> exec (String_call 0) store_mixed = Some (Inr (RText out, store_mixed))
                 \<and> exec (Writer_call 0 ''>'') store_mixed
                     = Some (Inr (RText (''>'' @ out), store_mixed)))"
    by (elim conjE)
  with p obtain out where
    o: "exec (Bytes_call 0) store_mixed = Some (Inr (RText out, store_mixed))"
    and w: "exec (Writer_call 0 ''>'') store_mixed = Some (Inr (RText (''>'' @ out), store_mixed))"
    by blast
  from o e have "out = ''.'' @ [CHR 0x0A] @ spec_nodes store_mixed [] forest_mixed"
    by (simp only: option.inject sum.inject prod.inject ret.inject)
  with w have "exec (Writer_call 0 ''>'') store_mixed =
       Some (Inr (RText (''>.'' @ [CHR 0x0A] @ spec_nodes store_mixed [] forest_mixed), store_mixed))"
    by (simp only: append_Cons append_Nil)
  with store_mixed_built p e show ?thesis by (intro conjI) (elim conjE, assumption)+
qed

section \<open>The padding of continuation lines\<close>

text \<open>
  When the \<^verbatim>\<open>Root\<close> links from a node lead through exactly \<open>level + 1\<close> nodes to a node
  without parent, \<^verbatim>\<open>padding\<close> returns one segment for each node of that path, the one
  nearest to the root first: blank when the node is the last of its parent's children,
  a vertical link and indent-width spaces otherwise.
\<close>

lemma upchain_snoc:
  "upchain h r (p @ [a]) =
     (upchain h r p \<and> a < length h \<and> (if p = [] then r else last p) < length h \<and>
      Root (h ! a) = Some (if p = [] then r else last p))"
  by (induction p arbitrary: r) auto

lemma padding_loop_upchain:
  "upchain h r path \<Longrightarrow> r < length h \<Longrightarrow> Root (h ! r) = None \<Longrightarrow> path \<noteq> [] \<Longrightarrow>
     length pre = length path \<Longrightarrow>
     padding_loop h (pre @ done) (int (length path) - 1) (last path) =
       Inr (concat (map (\<lambda>a. segment (last_sibling h a)) path) @ concat done)"
proof (induction path arbitrary: pre "done" rule: rev_induct)
  case Nil
  then show ?case by simp
next
  case (snoc a p)
  let ?q = "if p = [] then r else last p"
  from snoc.prems(1) have up: "upchain h r p" and a: "a < length h" and q: "?q < length h"
    and ra: "Root (h ! a) = Some ?q"
    by (simp_all add: upchain_snoc)
  from a q ra have il: "isLast h a = Inr (last_sibling h a)"
    by (auto simp: last_sibling_def isLast_def FindLastNode_def Let_def)
  from snoc.prems(5) obtain pre' x where pre: "pre = pre' @ [x]" and lp: "length pre' = length p"
    by (cases pre rule: rev_cases) auto
  let ?seg = "if last_sibling h a then Repeat '' '' (IndentSize + 1)
              else EdgeTypeLink @ Repeat '' '' IndentSize"
  have upd: "(pre @ done)[nat (int (length p)) := ?seg] = pre' @ (?seg # done)"
    using pre lp by (simp add: list_update_append)
  have step: "padding_loop h (pre @ done) (int (length (p @ [a])) - 1) (last (p @ [a]))
      = padding_loop h (pre' @ (?seg # done)) (int (length p) - 1) ?q"
    using a ra il pre lp upd
    by (subst padding_loop.simps) (simp del: padding_loop.simps)
  show ?case
  proof (cases "p = []")
    case True
    with snoc.prems(2,3) lp have "padding_loop h (pre' @ (?seg # done)) (int (length p) - 1) ?q
        = Inr (concat (?seg # done))"
      by (subst padding_loop.simps) simp
    with step True show ?thesis by (simp add: segment_def)
  next
    case False
    from snoc.IH[OF up snoc.prems(2,3) False lp, of "?seg # done"] False
    have "padding_loop h (pre' @ (?seg # done)) (int (length p) - 1) ?q
        = Inr (concat (map (\<lambda>a. segment (last_sibling h a)) p) @ concat (?seg # done))"
      by simp
    with step show ?thesis by (simp add: segment_def)
  qed
qed

lemma padding_upchain:
  assumes "upchain h r path" and "r < length h" and "Root (h ! r) = None" and "path \<noteq> []"
  shows "padding h (int (length path) - 1) (last path) =
           Inr (concat (map (\<lambda>a. segment (last_sibling h a)) path))"
  using padding_loop_upchain[OF assms, of "replicate (length path) []" "[]"]
  by (simp add: padding_def)

text \<open>
  Claim C4. Every continuation line of a value with line feeds is to get that padding.
  \<^verbatim>\<open>Writer\<close> counts the level from the node at which rendering starts, while \<^verbatim>\<open>padding\<close>
  walks up to the root of the whole tree and stores into \<^verbatim>\<open>links[level]\<close> on the way.
  In \<open>store_deep\<close>, built by \<open>store_deep_built\<close> with the add-operations, rendering
  from the node with the two-line value, or from its parent, stores into \<^verbatim>\<open>links[-1]\<close>
  and panics; rendering from the root gives the padded line.
\<close>

theorem padding_panics_below_start_node:
  "String store_deep 2 = Some (Inl IndexOutOfRange)
   \<and> String store_deep 1 = Some (Inl IndexOutOfRange)
   \<and> String store_deep 0 =
       Some (Inr (''.'' @ [CHR 0x0A] @ EdgeTypeEnd @ '' a'' @ [CHR 0x0A]
                  @ ''    '' @ EdgeTypeEnd @ '' x'' @ [CHR 0x0A]
                  @ ''        y'' @ [CHR 0x0A]))"
  by code_simp

end
